theory Spec2Isabelle
  imports Complex_Main
begin

section \<open>The graph estimator's score engine (\<^verbatim>\<open>app.py\<close>)\<close>

text \<open>
  The development embeds \<^verbatim>\<open>_fill_graph_score\<close>: the first walk over the package names
  (the seeding loop) and the \<^verbatim>\<open>while subgraphs:\<close> loop that drains the deque.

  Conventions of the embedding.
  \<^item> The table \<^verbatim>\<open>package\<close> is a map from \<^verbatim>\<open>package_name\<close> to the row that
    \<^verbatim>\<open>session.query(Package).filter(...).first()\<close> returns; a name with no row maps to
    \<open>None\<close>. Both columns are nullable, so both fields are options.
  \<^item> The \<^verbatim>\<open>Float\<close> column and the accumulator of a \<^verbatim>\<open>SubGraphEntity\<close> are
    exact real numbers in the embedding of the run: the rounding and the overflow of
    doubles are left out there, and the row type takes the type of the sizes as a
    parameter. The pass over \<^verbatim>\<open>to_visit\<close> is given a second time over doubles with
    overflow (\<open>visit_double\<close>), for the one statement that depends on it.
  \<^item> A Python \<^verbatim>\<open>set\<close> of names is a duplicate-free list, the list order being the
    order in which the \<^verbatim>\<open>for\<close> loop iterates over the set.
  \<^item> The only exception the two loops can raise on their own is the \<^verbatim>\<open>TypeError\<close> of
    multiplying a float by \<^verbatim>\<open>None\<close>; it is a value of the result type.
  \<^item> Logging has no effect on the state and is left out.
\<close>

subsection \<open>Data\<close>

record 'a Package =
  version_count :: "int option"
  subgraph_size :: "'a option"

type_synonym Session = "string \<rightharpoonup> real Package"

text \<open>
  \<^verbatim>\<open>SubGraphEntity\<close>. Its attribute \<^verbatim>\<open>subgraph_size\<close> (default \<^verbatim>\<open>1.0\<close>) is named
  \<open>entity_subgraph_size\<close> here, because the column of \<open>Package\<close> has the same name.
\<close>

record SubGraphEntity =
  subgraph_name :: string
  subgraphs_seen :: "string set"
  to_visit :: "string list"
  entity_subgraph_size :: real

text \<open>
  The two methods of \<^verbatim>\<open>GraphDatabase\<close> that the engine calls.
  \<^verbatim>\<open>get_python_package_version_names_all(distinct=True)\<close> is the list of names in the
  order it is returned.
\<close>

record GraphDatabase =
  get_python_package_version_names_all :: "string list"
  get_depends_on_package_names :: "string \<Rightarrow> string list"

datatype error = TypeError

type_synonym state = "Session \<times> SubGraphEntity list"

subsection \<open>The first walk (lines 125 to 137)\<close>

text \<open>\<^verbatim>\<open>SubGraphEntity(subgraph_name=package_name, to_visit=set(dependencies))\<close>.\<close>

definition new_entity :: "string \<Rightarrow> string list \<Rightarrow> SubGraphEntity" where
  "new_entity package_name dependencies =
     \<lparr>subgraph_name = package_name, subgraphs_seen = {},
      to_visit = remdups dependencies, entity_subgraph_size = 1\<rparr>"

text \<open>
  One iteration of the first loop. The entity is appended before the test of
  \<^verbatim>\<open>dependencies\<close> (line 127) and once more in the \<^verbatim>\<open>else\<close> branch (line 137).
  Line 134 copies \<^verbatim>\<open>version_count\<close>, which may be \<^verbatim>\<open>None\<close>.
\<close>

definition seed_package :: "GraphDatabase \<Rightarrow> state \<Rightarrow> string \<Rightarrow> state" where
  "seed_package graph st package_name =
     (let session = fst st;
          dependencies = get_depends_on_package_names graph package_name;
          subgraphs = snd st @ [new_entity package_name dependencies]
      in if dependencies = [] then
           (case session package_name of
              None \<Rightarrow> (session, subgraphs)
            | Some entry \<Rightarrow>
                (session(package_name \<mapsto>
                   entry\<lparr>subgraph_size := map_option of_int (version_count entry)\<rparr>),
                 subgraphs))
         else (session, subgraphs @ [new_entity package_name dependencies]))"

definition seed :: "GraphDatabase \<Rightarrow> Session \<Rightarrow> state" where
  "seed graph session =
     foldl (seed_package graph) (session, []) (get_python_package_version_names_all graph)"

subsection \<open>One pass over \<^verbatim>\<open>to_visit\<close> (lines 142 to 154)\<close>

text \<open>
  How the \<^verbatim>\<open>for\<close> loop ends: it runs to its end (\<open>Completed\<close>, the \<^verbatim>\<open>else\<close> clause
  follows), it breaks at a dependency with no row (\<open>Unresolved\<close>, line 146), or it breaks
  at a dependency whose \<^verbatim>\<open>subgraph_size\<close> is \<^verbatim>\<open>None\<close> after appending the entity
  again (\<open>Scheduled\<close>, line 151).
\<close>

datatype outcome = Completed | Unresolved | Scheduled

fun visit :: "Session \<Rightarrow> string list \<Rightarrow> real \<Rightarrow> string set
    \<Rightarrow> error + (outcome \<times> real \<times> string set)" where
  "visit session [] sz seen = Inr (Completed, sz, seen)"
| "visit session (package_name # rest) sz seen =
     (case session package_name of
        None \<Rightarrow> Inr (Unresolved, sz, seen)
      | Some entry \<Rightarrow>
          (case subgraph_size entry of
             None \<Rightarrow> Inr (Scheduled, sz, seen)
           | Some s \<Rightarrow>
               (case version_count entry of
                  None \<Rightarrow> Inl TypeError
                | Some v \<Rightarrow> visit session rest (sz * (s * of_int v)) (insert package_name seen))))"

subsection \<open>The body of the \<^verbatim>\<open>while\<close> loop (lines 140 to 164)\<close>

text \<open>
  \<open>subgraph\<close> is the entity popped from the left, \<open>subgraphs\<close> the rest of the deque.
  The entity appended at line 150 is the object that line 164 then updates, so the deque
  holds the entity with the seen names already removed from \<open>to_visit\<close>.
\<close>

definition loop_body :: "Session \<Rightarrow> SubGraphEntity \<Rightarrow> SubGraphEntity list \<Rightarrow> error + state" where
  "loop_body session subgraph subgraphs =
     (case visit session (to_visit subgraph) (entity_subgraph_size subgraph)
             (subgraphs_seen subgraph) of
        Inl e \<Rightarrow> Inl e
      | Inr (Unresolved, sz, seen) \<Rightarrow> Inr (session, subgraphs)
      | Inr (Scheduled, sz, seen) \<Rightarrow>
          Inr (session,
               subgraphs @ [subgraph\<lparr>subgraphs_seen := seen,
                                     to_visit := filter (\<lambda>d. d \<notin> seen) (to_visit subgraph),
                                     entity_subgraph_size := sz\<rparr>])
      | Inr (Completed, sz, seen) \<Rightarrow>
          (case session (subgraph_name subgraph) of
             None \<Rightarrow> Inr (session, subgraphs)
           | Some entry \<Rightarrow>
               Inr (session(subgraph_name subgraph \<mapsto> entry\<lparr>subgraph_size := Some sz\<rparr>),
                    subgraphs)))"

subsection \<open>The \<^verbatim>\<open>while\<close> loop\<close>

text \<open>
  \<open>iterate n st\<close> is the state after \<open>n\<close> iterations of the loop body, or after fewer
  when the deque became empty before; \<open>Inl\<close> when an iteration raised.
\<close>

fun iterate :: "nat \<Rightarrow> state \<Rightarrow> error + state" where
  "iterate 0 st = Inr st"
| "iterate (Suc n) (session, []) = Inr (session, [])"
| "iterate (Suc n) (session, subgraph # subgraphs) =
     (case loop_body session subgraph subgraphs of
        Inl e \<Rightarrow> Inl e
      | Inr st' \<Rightarrow> iterate n st')"

text \<open>
  The loop with fuel: \<open>drain n st\<close> is \<open>None\<close> when the deque is still not empty after
  \<open>n\<close> iterations, \<open>Some (Inl e)\<close> when an iteration raised, and \<open>Some (Inr session)\<close>
  when the loop ended with the table \<open>session\<close>.
\<close>

fun drain :: "nat \<Rightarrow> state \<Rightarrow> (error + Session) option" where
  "drain n (session, []) = Some (Inr session)"
| "drain 0 (session, subgraph # subgraphs) = None"
| "drain (Suc n) (session, subgraph # subgraphs) =
     (case loop_body session subgraph subgraphs of
        Inl e \<Rightarrow> Some (Inl e)
      | Inr st' \<Rightarrow> drain n st')"

text \<open>\<^verbatim>\<open>_fill_graph_score\<close>, with the fuel of its loop.\<close>

definition fill_graph_score :: "nat \<Rightarrow> GraphDatabase \<Rightarrow> Session \<Rightarrow> (error + Session) option" where
  "fill_graph_score n graph session = drain n (seed graph session)"

text \<open>The \<^verbatim>\<open>subgraph_size\<close> stored for a name: \<open>None\<close> for no row and for \<^verbatim>\<open>NULL\<close>.\<close>

definition size_of :: "Session \<Rightarrow> string \<Rightarrow> real option" where
  "size_of session package_name =
     (case session package_name of None \<Rightarrow> None | Some entry \<Rightarrow> subgraph_size entry)"

subsection \<open>The pass over doubles\<close>





section \<open>Notions used in the statements\<close>

text \<open>
  A dependency that a pass folds in (line 153): it has a row, and both columns of the row
  are set.
\<close>

definition foldable :: "Session \<Rightarrow> string \<Rightarrow> bool" where
  "foldable session d =
     (case session d of
        None \<Rightarrow> False
      | Some entry \<Rightarrow> subgraph_size entry \<noteq> None \<and> version_count entry \<noteq> None)"

text \<open>
  The factor \<^verbatim>\<open>entry.subgraph_size * entry.version_count\<close> of line 153, for a
  dependency that is folded in (and 1 for one that is not).
\<close>

definition factor :: "Session \<Rightarrow> string \<Rightarrow> real" where
  "factor session d =
     (case session d of
        None \<Rightarrow> 1
      | Some entry \<Rightarrow>
          (case (subgraph_size entry, version_count entry) of
             (Some s, Some v) \<Rightarrow> s * of_int v
           | _ \<Rightarrow> 1))"

text \<open>
  The entities that the first walk appends for one package name: one for a package with
  no dependencies (line 127), two for a package with dependencies (lines 127 and 137).
\<close>

definition entities :: "GraphDatabase \<Rightarrow> string \<Rightarrow> SubGraphEntity list" where
  "entities graph package_name =
     (let dependencies = get_depends_on_package_names graph package_name
      in if dependencies = [] then [new_entity package_name dependencies]
         else [new_entity package_name dependencies, new_entity package_name dependencies])"

text \<open>What the first walk does to the row of a package name (line 134).\<close>

definition seeded_row :: "GraphDatabase \<Rightarrow> string \<Rightarrow> real Package \<Rightarrow> real Package" where
  "seeded_row graph package_name entry =
     (if get_depends_on_package_names graph package_name = []
      then entry\<lparr>subgraph_size := map_option of_int (version_count entry)\<rparr>
      else entry)"

text \<open>Every row of the table has its \<^verbatim>\<open>version_count\<close> set.\<close>

definition counted :: "Session \<Rightarrow> bool" where
  "counted session = (\<forall>p entry. session p = Some entry \<longrightarrow> version_count entry \<noteq> None)"

text \<open>
  An entity that has folded nothing in yet and whose first pending dependency has a row with
  \<^verbatim>\<open>subgraph_size\<close> unset: the pass breaks at line 151 at once.
\<close>

definition stuck :: "Session \<Rightarrow> SubGraphEntity \<Rightarrow> bool" where
  "stuck session subgraph =
     (subgraphs_seen subgraph = {} \<and>
      (case to_visit subgraph of
         [] \<Rightarrow> False
       | d # rest \<Rightarrow>
           (case session d of None \<Rightarrow> False | Some entry \<Rightarrow> subgraph_size entry = None)))"

text \<open>
  For a package \<open>p\<close> with no dependencies and a row: the row already holds the size 1, or
  an entity of \<open>p\<close> is still in the deque; and every entity of \<open>p\<close> in the deque has
  nothing to visit and the accumulator 1.
\<close>

definition leaf_pending :: "string \<Rightarrow> state \<Rightarrow> bool" where
  "leaf_pending p st =
     ((size_of (fst st) p = Some 1 \<or> (\<exists>e\<in>set (snd st). subgraph_name e = p))
      \<and> (\<forall>e\<in>set (snd st). subgraph_name e = p \<longrightarrow> to_visit e = [] \<and> entity_subgraph_size e = 1)
      \<and> fst st p \<noteq> None)"

text \<open>
  Every entity of \<open>p\<close> in the deque still has \<open>y\<close> among its pending names and has not
  folded \<open>y\<close> in.
\<close>

definition blocked :: "string \<Rightarrow> string \<Rightarrow> SubGraphEntity list \<Rightarrow> bool" where
  "blocked p y subgraphs =
     (\<forall>e\<in>set subgraphs. subgraph_name e = p \<longrightarrow> y \<in> set (to_visit e) \<and> y \<notin> subgraphs_seen e)"



text \<open>
  The same for a deque: every entity visits only names in \<open>D\<close> or subjects of entities
  before it.
\<close>

fun ready :: "string set \<Rightarrow> SubGraphEntity list \<Rightarrow> bool" where
  "ready D [] = True"
| "ready D (e # q) = (set (to_visit e) \<subseteq> D \<and> ready (insert (subgraph_name e) D) q)"



section \<open>Concrete inputs\<close>

text \<open>The cycle: \<open>C\<close> depends on \<open>D\<close> and \<open>D\<close> on \<open>C\<close>; both rows exist, no size is set.\<close>

definition cycle_graph :: GraphDatabase where
  "cycle_graph = \<lparr>get_python_package_version_names_all = [''C'', ''D''],
     get_depends_on_package_names = (\<lambda>p. if p = ''C'' then [''D''] else if p = ''D'' then [''C''] else [])\<rparr>"

definition cycle_session :: Session where
  "cycle_session = [''C'' \<mapsto> \<lparr>version_count = Some 1, subgraph_size = None\<rparr>,
                    ''D'' \<mapsto> \<lparr>version_count = Some 1, subgraph_size = None\<rparr>]"

text \<open>A table in which \<open>A\<close> and \<open>B\<close> are scored and \<open>P\<close> is not.\<close>

definition order_session :: Session where
  "order_session = [''A'' \<mapsto> \<lparr>version_count = Some 3, subgraph_size = Some 2\<rparr>,
                    ''B'' \<mapsto> \<lparr>version_count = Some 1, subgraph_size = Some 5\<rparr>,
                    ''P'' \<mapsto> \<lparr>version_count = Some 4, subgraph_size = None\<rparr>]"

text \<open>A table in which \<open>X\<close> has a size but no version count.\<close>

definition typeerror_session :: Session where
  "typeerror_session = [''X'' \<mapsto> \<lparr>version_count = None, subgraph_size = Some 2\<rparr>,
                        ''P'' \<mapsto> \<lparr>version_count = Some 1, subgraph_size = None\<rparr>]"

text \<open>One package \<open>A\<close> with no dependencies and three versions.\<close>

definition leaf_graph :: GraphDatabase where
  "leaf_graph = \<lparr>get_python_package_version_names_all = [''A''],
     get_depends_on_package_names = (\<lambda>p. [])\<rparr>"

definition leaf_session :: Session where
  "leaf_session = [''A'' \<mapsto> \<lparr>version_count = Some 3, subgraph_size = None\<rparr>]"

text \<open>
  \<open>A\<close> has no dependencies and three versions, \<open>B\<close> depends on \<open>A\<close> and has two versions;
  the names are listed in either order. Both rows exist and no size is set.
\<close>

definition two_graph :: GraphDatabase where
  "two_graph = \<lparr>get_python_package_version_names_all = [''A'', ''B''],
     get_depends_on_package_names = (\<lambda>p. if p = ''B'' then [''A''] else [])\<rparr>"

definition two_graph_rev :: GraphDatabase where
  "two_graph_rev = \<lparr>get_python_package_version_names_all = [''B'', ''A''],
     get_depends_on_package_names = (\<lambda>p. if p = ''B'' then [''A''] else [])\<rparr>"

definition two_session :: Session where
  "two_session = [''A'' \<mapsto> \<lparr>version_count = Some 3, subgraph_size = None\<rparr>,
                  ''B'' \<mapsto> \<lparr>version_count = Some 2, subgraph_size = None\<rparr>]"






text \<open>
  \<open>P\<close> depends on \<open>X\<close> and \<open>Y\<close>, and \<open>X\<close> depends on \<open>Y\<close>; the table has rows for \<open>P\<close>
  and \<open>X\<close> and none for \<open>Y\<close>.
\<close>

definition unresolved_graph :: GraphDatabase where
  "unresolved_graph = \<lparr>get_python_package_version_names_all = [''P'', ''X''],
     get_depends_on_package_names =
       (\<lambda>p. if p = ''P'' then [''X'', ''Y''] else if p = ''X'' then [''Y''] else [])\<rparr>"

definition unresolved_session :: Session where
  "unresolved_session = [''P'' \<mapsto> \<lparr>version_count = Some 1, subgraph_size = None\<rparr>,
                         ''X'' \<mapsto> \<lparr>version_count = Some 1, subgraph_size = None\<rparr>]"

text \<open>\<open>P\<close> depends on \<open>Y\<close> alone.\<close>

definition absent_graph :: GraphDatabase where
  "absent_graph = \<lparr>get_python_package_version_names_all = [''P''],
     get_depends_on_package_names = (\<lambda>p. if p = ''P'' then [''Y''] else [])\<rparr>"







section \<open>Lemmas\<close>

subsection \<open>The pass over \<^verbatim>\<open>to_visit\<close>\<close>


lemma visit_Completed_foldable:
  "visit session xs sz seen = Inr (Completed, sz', seen') \<Longrightarrow> list_all (foldable session) xs"
proof (induction xs arbitrary: sz seen)
  case Nil
  then show ?case by simp
next
  case (Cons d xs)
  from Cons.prems obtain entry s v where
    row: "session d = Some entry" "subgraph_size entry = Some s" "version_count entry = Some v"
    by (auto split: option.splits)
  with Cons.prems have
    "visit session xs (sz * (s * of_int v)) (insert d seen) = Inr (Completed, sz', seen')"
    by simp
  then have "list_all (foldable session) xs"
    by (rule Cons.IH)
  moreover have "foldable session d"
    using row by (simp add: foldable_def)
  ultimately show ?case by simp
qed



lemma visit_no_error:
  assumes "\<forall>d\<in>set xs. \<forall>entry. session d = Some entry \<longrightarrow> subgraph_size entry \<noteq> None
             \<longrightarrow> version_count entry \<noteq> None"
  shows "\<exists>r. visit session xs sz seen = Inr r"
  using assms
proof (induction xs arbitrary: sz seen)
  case Nil
  then show ?case by simp
next
  case (Cons d xs)
  then show ?case
    by (auto split: option.splits)
qed

lemma visit_TypeError:
  assumes "list_all (foldable session) ds"
    and "session d = Some entry" "subgraph_size entry = Some s" "version_count entry = None"
  shows "visit session (ds @ d # rest) sz seen = Inl TypeError"
  using assms(1)
proof (induction ds arbitrary: sz seen)
  case Nil
  then show ?case using assms(2-4) by simp
next
  case (Cons x ds)
  from Cons.prems obtain ex sx vx where
    "session x = Some ex" "subgraph_size ex = Some sx" "version_count ex = Some vx"
    by (auto simp: foldable_def split: option.splits)
  moreover from Cons.prems have "list_all (foldable session) ds" by simp
  ultimately show ?case
    using Cons.IH by simp
qed

subsection \<open>The first walk\<close>

lemma snd_seed_package:
  "snd (seed_package graph st p) = snd st @ entities graph p"
  by (simp add: seed_package_def entities_def Let_def split: option.splits)

lemma fst_seed_package:
  "fst (seed_package graph st p) x =
     (if x = p then map_option (seeded_row graph p) (fst st p) else fst st x)"
  by (simp add: seed_package_def seeded_row_def Let_def split: option.splits)

lemma snd_foldl_seed_package:
  "snd (foldl (seed_package graph) st ps) = snd st @ concat (map (entities graph) ps)"
  by (induction ps arbitrary: st) (simp_all add: snd_seed_package)

lemma seeded_row_idem: "seeded_row graph p (seeded_row graph p entry) = seeded_row graph p entry"
  by (simp add: seeded_row_def)

lemma fst_foldl_seed_package:
  "fst (foldl (seed_package graph) st ps) x =
     (if x \<in> set ps then map_option (seeded_row graph x) (fst st x) else fst st x)"
proof (induction ps arbitrary: st)
  case Nil
  then show ?case by simp
next
  case (Cons p ps)
  show ?case
    by (cases "fst st x") (auto simp: Cons.IH fst_seed_package seeded_row_idem)
qed

lemma snd_seed:
  "snd (seed graph session) =
     concat (map (entities graph) (get_python_package_version_names_all graph))"
  by (simp add: seed_def snd_foldl_seed_package)

lemma fst_seed:
  "fst (seed graph session) x =
     (if x \<in> set (get_python_package_version_names_all graph)
      then map_option (seeded_row graph x) (session x) else session x)"
  by (simp add: seed_def fst_foldl_seed_package)

subsection \<open>The loop with fuel and the iterated loop body\<close>

lemma drain_iterate_Inr:
  "drain n st = Some (Inr session') \<longleftrightarrow> iterate n st = Inr (session', [])"
proof (induction n st rule: drain.induct)
  case (1 n session)
  then show ?case by (cases n) auto
next
  case (2 session subgraph subgraphs)
  then show ?case by simp
next
  case (3 n session subgraph subgraphs)
  then show ?case
    by (cases "loop_body session subgraph subgraphs") auto
qed

lemma drain_iterate_Inl:
  "drain n st = Some (Inl e) \<longleftrightarrow> iterate n st = Inl e"
proof (induction n st rule: drain.induct)
  case (1 n session)
  then show ?case by (cases n) auto
next
  case (2 session subgraph subgraphs)
  then show ?case by simp
next
  case (3 n session subgraph subgraphs)
  then show ?case
    by (cases "loop_body session subgraph subgraphs") auto
qed

lemma drain_iterate_None:
  "drain n st = None \<longleftrightarrow> (\<exists>session' q. iterate n st = Inr (session', q) \<and> q \<noteq> [])"
proof (induction n st rule: drain.induct)
  case (1 n session)
  then show ?case by (cases n) auto
next
  case (2 session subgraph subgraphs)
  then show ?case by simp
next
  case (3 n session subgraph subgraphs)
  then show ?case
    by (cases "loop_body session subgraph subgraphs") auto
qed

subsection \<open>What one iteration can change\<close>

lemma loop_body_cases:
  assumes "loop_body session subgraph subgraphs = Inr (session', subgraphs')"
  shows "(session' = session \<and> subgraphs' = subgraphs)
       \<or> (\<exists>sz seen. visit session (to_visit subgraph) (entity_subgraph_size subgraph)
              (subgraphs_seen subgraph) = Inr (Scheduled, sz, seen)
            \<and> session' = session
            \<and> subgraphs' = subgraphs @ [subgraph\<lparr>subgraphs_seen := seen,
                 to_visit := filter (\<lambda>d. d \<notin> seen) (to_visit subgraph),
                 entity_subgraph_size := sz\<rparr>])
       \<or> (\<exists>sz seen entry. visit session (to_visit subgraph) (entity_subgraph_size subgraph)
              (subgraphs_seen subgraph) = Inr (Completed, sz, seen)
            \<and> session (subgraph_name subgraph) = Some entry
            \<and> session' = session(subgraph_name subgraph \<mapsto> entry\<lparr>subgraph_size := Some sz\<rparr>)
            \<and> subgraphs' = subgraphs)"
  using assms
  by (auto simp: loop_body_def split: sum.splits outcome.splits option.splits prod.splits)

lemma loop_body_other:
  assumes "loop_body session subgraph subgraphs = Inr (session', subgraphs')"
    and "p \<noteq> subgraph_name subgraph"
  shows "session' p = session p"
  using loop_body_cases [OF assms(1)] assms(2) by auto

lemma loop_body_row:
  assumes "loop_body session subgraph subgraphs = Inr (session', subgraphs')"
  shows "(session' p = None) = (session p = None)"
  using loop_body_cases [OF assms] by (auto split: if_splits)

lemma loop_body_version_count:
  assumes "loop_body session subgraph subgraphs = Inr (session', subgraphs')"
  shows "map_option version_count (session' p) = map_option version_count (session p)"
  using loop_body_cases [OF assms] by (auto split: if_splits)


subsection \<open>No exception when every row has a version count\<close>

lemma loop_body_no_error:
  assumes "\<forall>d\<in>set (to_visit subgraph). \<forall>entry. session d = Some entry
             \<longrightarrow> subgraph_size entry \<noteq> None \<longrightarrow> version_count entry \<noteq> None"
  shows "\<exists>st. loop_body session subgraph subgraphs = Inr st"
proof -
  from visit_no_error [OF assms] obtain out sz seen where
    "visit session (to_visit subgraph) (entity_subgraph_size subgraph) (subgraphs_seen subgraph)
       = Inr (out, sz, seen)"
    by (metis prod_cases3)
  then show ?thesis
    by (cases out) (auto simp: loop_body_def split: option.splits)
qed

lemma counted_loop_body:
  assumes "counted session" "loop_body session subgraph subgraphs = Inr (session', subgraphs')"
  shows "counted session'"
  unfolding counted_def
proof (intro allI impI)
  fix p entry
  assume row: "session' p = Some entry"
  from loop_body_version_count [OF assms(2), of p] row
  obtain entry0 where e0: "session p = Some entry0" "version_count entry0 = version_count entry"
    by (cases "session p") auto
  from assms(1) e0(1) have "version_count entry0 \<noteq> None"
    unfolding counted_def by blast
  with e0(2) show "version_count entry \<noteq> None"
    by simp
qed

lemma counted_seed:
  assumes "counted session"
  shows "counted (fst (seed graph session))"
  unfolding counted_def
proof (intro allI impI)
  fix p entry
  assume row: "fst (seed graph session) p = Some entry"
  then obtain entry0 where e0: "session p = Some entry0" "version_count entry0 = version_count entry"
    by (cases "session p") (auto simp: fst_seed seeded_row_def split: if_splits)
  from assms e0(1) have "version_count entry0 \<noteq> None"
    unfolding counted_def by blast
  with e0(2) show "version_count entry \<noteq> None"
    by simp
qed

lemma iterate_no_error:
  assumes "counted session"
  shows "\<exists>st. iterate n (session, subgraphs) = Inr st"
  using assms
proof (induction n arbitrary: session subgraphs)
  case 0
  then show ?case by simp
next
  case (Suc n)
  show ?case
  proof (cases subgraphs)
    case Nil
    then show ?thesis by simp
  next
    case (Cons subgraph rest)
    have "\<exists>st. loop_body session subgraph rest = Inr st"
      using Suc.prems by (intro loop_body_no_error) (auto simp: counted_def)
    then obtain session' rest' where step: "loop_body session subgraph rest = Inr (session', rest')"
      by auto
    have "counted session'"
      using Suc.prems step by (rule counted_loop_body)
    from Suc.IH [OF this, of rest'] show ?thesis
      using Cons step by simp
  qed
qed

subsection \<open>Entities that cannot move\<close>

lemma loop_body_stuck:
  assumes "stuck session subgraph"
  shows "loop_body session subgraph subgraphs = Inr (session, subgraphs @ [subgraph])"
proof -
  from assms obtain d rest entry where
    tv: "to_visit subgraph = d # rest" and row: "session d = Some entry" "subgraph_size entry = None"
    and seen: "subgraphs_seen subgraph = {}"
    by (auto simp: stuck_def split: list.splits option.splits)
  have "subgraph\<lparr>subgraphs_seen := {}, to_visit := filter (\<lambda>d. d \<notin> {}) (to_visit subgraph),
          entity_subgraph_size := entity_subgraph_size subgraph\<rparr> = subgraph"
    using seen by simp
  then show ?thesis
    using tv row seen by (simp add: loop_body_def)
qed

lemma iterate_stuck:
  assumes "list_all (stuck session) subgraphs"
  shows "iterate n (session, subgraphs) = Inr (session, rotate n subgraphs)"
  using assms
proof (induction n arbitrary: subgraphs)
  case 0
  then show ?case by simp
next
  case (Suc n)
  show ?case
  proof (cases subgraphs)
    case Nil
    then show ?thesis by simp
  next
    case (Cons subgraph rest)
    with Suc.prems have st: "stuck session subgraph" and all: "list_all (stuck session) (rest @ [subgraph])"
      by simp_all
    have "iterate (Suc n) (session, subgraphs) = iterate n (session, rest @ [subgraph])"
      using Cons loop_body_stuck [OF st] by simp
    also have "\<dots> = Inr (session, rotate n (rest @ [subgraph]))"
      using all by (rule Suc.IH)
    also have "rotate n (rest @ [subgraph]) = rotate (Suc n) subgraphs"
      using Cons by (simp add: rotate1_rotate_swap)
    finally show ?thesis .
  qed
qed

lemma counted_order_session: "counted order_session"
  by (auto simp: counted_def order_session_def split: if_splits)

subsection \<open>Evaluating a run on a concrete input\<close>

lemmas run_simps = fill_graph_score_def seed_def seed_package_def size_of_def new_entity_def
  loop_body_def Let_def

subsection \<open>How many entities the first walk appends\<close>

lemma count_entities:
  "length (filter (\<lambda>e. subgraph_name e = p) (entities graph q)) =
     (if q = p then (if get_depends_on_package_names graph p = [] then 1 else 2) else 0)"
  by (simp add: entities_def new_entity_def Let_def)

lemma seed_entity_count:
  assumes "distinct (get_python_package_version_names_all graph)"
  shows "length (filter (\<lambda>e. subgraph_name e = p) (snd (seed graph session))) =
     (if p \<in> set (get_python_package_version_names_all graph)
      then (if get_depends_on_package_names graph p = [] then 1 else 2) else 0)"
proof -
  have "distinct ps \<Longrightarrow>
      length (filter (\<lambda>e. subgraph_name e = p) (concat (map (entities graph) ps))) =
        (if p \<in> set ps then (if get_depends_on_package_names graph p = [] then 1 else 2) else 0)"
    for ps
    by (induction ps) (auto simp: count_entities)
  from this [OF assms] show ?thesis
    by (simp add: snd_seed)
qed

subsection \<open>A package with no dependencies ends with the size 1\<close>

lemma leaf_pending_loop_body:
  assumes "leaf_pending p (session, subgraph # subgraphs)"
    and "loop_body session subgraph subgraphs = Inr st'"
  shows "leaf_pending p st'"
proof (cases "subgraph_name subgraph = p")
  case True
  with assms(1) have tv: "to_visit subgraph = []" "entity_subgraph_size subgraph = 1"
    and row: "session p \<noteq> None"
    by (auto simp: leaf_pending_def)
  then obtain entry where e: "session p = Some entry" by auto
  have "st' = (session(p \<mapsto> entry\<lparr>subgraph_size := Some 1\<rparr>), subgraphs)"
    using assms(2) tv e True by (simp add: loop_body_def)
  then show ?thesis
    using assms(1) by (auto simp: leaf_pending_def size_of_def)
next
  case False
  obtain session' subgraphs' where st': "st' = (session', subgraphs')"
    by (cases st')
  note c = loop_body_cases [OF assms(2) [unfolded st']]
  have same: "session' p = session p"
    using loop_body_other [OF assms(2) [unfolded st']] False by simp
  have "set subgraphs' \<subseteq> set subgraphs \<union> {e. subgraph_name e = subgraph_name subgraph}"
    using c by auto
  moreover have "\<forall>e\<in>set subgraphs. e \<in> set subgraphs'"
    using c by auto
  ultimately show ?thesis
    using assms(1) False same unfolding st' leaf_pending_def size_of_def
    by (auto split: option.splits)
qed

lemma leaf_pending_iterate:
  assumes "leaf_pending p st" "iterate n st = Inr st'"
  shows "leaf_pending p st'"
  using assms
proof (induction n st rule: iterate.induct)
  case (1 st)
  then show ?case by simp
next
  case (2 n session)
  then show ?case by simp
next
  case (3 n session subgraph subgraphs)
  from "3.prems"(2) obtain st1 where step: "loop_body session subgraph subgraphs = Inr st1"
    and rest: "iterate n st1 = Inr st'"
    by (auto split: sum.splits)
  have "leaf_pending p st1"
    using "3.prems"(1) step by (rule leaf_pending_loop_body)
  then show ?case
    using "3.IH" [OF step] rest by simp
qed

lemma leaf_pending_seed:
  assumes "p \<in> set (get_python_package_version_names_all graph)"
    and "get_depends_on_package_names graph p = []"
    and "session p \<noteq> None"
  shows "leaf_pending p (seed graph session)"
proof -
  have "entities graph p = [new_entity p []]"
    using assms(2) by (simp add: entities_def)
  then have "new_entity p [] \<in> set (entities graph p)"
    by simp
  then have in_q: "new_entity p [] \<in> set (snd (seed graph session))"
    using assms(1) unfolding snd_seed by auto
  have "\<forall>e\<in>set (snd (seed graph session)). subgraph_name e = p \<longrightarrow>
      to_visit e = [] \<and> entity_subgraph_size e = 1"
    using assms(2) by (auto simp: snd_seed entities_def new_entity_def Let_def split: if_splits)
  moreover have "fst (seed graph session) p \<noteq> None"
    using assms(3) by (auto simp: fst_seed)
  moreover have "subgraph_name (new_entity p []) = p"
    by (simp add: new_entity_def)
  ultimately show ?thesis
    using in_q unfolding leaf_pending_def by blast
qed

lemma leaf_size_after_run:
  assumes "p \<in> set (get_python_package_version_names_all graph)"
    and "get_depends_on_package_names graph p = []"
    and "session p \<noteq> None"
    and "fill_graph_score n graph session = Some (Inr session')"
  shows "size_of session' p = Some 1"
proof -
  have "iterate n (seed graph session) = Inr (session', [])"
    using assms(4) by (simp add: fill_graph_score_def drain_iterate_Inr)
  moreover have "leaf_pending p (seed graph session)"
    using assms(1-3) by (rule leaf_pending_seed)
  ultimately have "leaf_pending p (session', [])"
    using leaf_pending_iterate by blast
  then show ?thesis
    by (simp add: leaf_pending_def)
qed

subsection \<open>A pass that folds in a prefix of the pending names\<close>

lemma factor_foldable:
  "session d = Some entry \<Longrightarrow> subgraph_size entry = Some s \<Longrightarrow> version_count entry = Some v
   \<Longrightarrow> factor session d = s * of_int v"
  by (simp add: factor_def)

lemma visit_append_foldable:
  "list_all (foldable session) ds \<Longrightarrow>
   visit session (ds @ rest) sz seen =
     visit session rest (sz * prod_list (map (factor session) ds)) (seen \<union> set ds)"
proof (induction ds arbitrary: sz seen)
  case Nil
  then show ?case by simp
next
  case (Cons x ds)
  from Cons.prems obtain ex sx vx where
    row: "session x = Some ex" "subgraph_size ex = Some sx" "version_count ex = Some vx"
    by (auto simp: foldable_def split: option.splits)
  from Cons.prems have "list_all (foldable session) ds" by simp
  from Cons.IH [OF this, of "sz * (sx * of_int vx)" "insert x seen"]
  show ?case
    using row by (simp add: factor_def mult.assoc)
qed


lemma visit_Unresolved:
  assumes "list_all (foldable session) ds" "session d = None"
  shows "visit session (ds @ d # rest) sz seen =
     Inr (Unresolved, sz * prod_list (map (factor session) ds), seen \<union> set ds)"
  using assms by (simp add: visit_append_foldable)

subsection \<open>More iterations, more fuel\<close>

lemma iterate_empty: "iterate n (session, []) = Inr (session, [])"
  by (cases n) simp_all

lemma iterate_add:
  "iterate (m + n) st = (case iterate m st of Inl e \<Rightarrow> Inl e | Inr st' \<Rightarrow> iterate n st')"
proof (induction m st rule: iterate.induct)
  case (1 st)
  then show ?case by simp
next
  case (2 m session)
  then show ?case by (simp add: iterate_empty)
next
  case (3 m session subgraph subgraphs)
  then show ?case
    by (cases "loop_body session subgraph subgraphs") simp_all
qed

lemma drain_more_fuel:
  "drain m st = Some r \<Longrightarrow> drain (m + k) st = Some r"
proof (induction m st rule: drain.induct)
  case (1 n session)
  then show ?case by simp
next
  case (2 session subgraph subgraphs)
  then show ?case by simp
next
  case (3 n session subgraph subgraphs)
  then show ?case
    by (cases "loop_body session subgraph subgraphs") simp_all
qed

subsection \<open>A dependency with no row\<close>

lemma visit_seen_rows:
  assumes "visit session xs sz seen = Inr (out, sz', seen')" "y \<notin> seen" "session y = None"
  shows "y \<notin> seen'"
  using assms
proof (induction xs arbitrary: sz seen)
  case Nil
  then show ?case by simp
next
  case (Cons x xs)
  show ?case
  proof (cases "foldable session x")
    case True
    then obtain ex sx vx where
      row: "session x = Some ex" "subgraph_size ex = Some sx" "version_count ex = Some vx"
      by (auto simp: foldable_def split: option.splits)
    with Cons.prems(3) have "y \<noteq> x" by auto
    with Cons.prems(2) have "y \<notin> insert x seen" by simp
    moreover from Cons.prems(1) row have
      "visit session xs (sz * (sx * of_int vx)) (insert x seen) = Inr (out, sz', seen')"
      by simp
    ultimately show ?thesis
      using Cons.IH Cons.prems(3) by blast
  next
    case False
    with Cons.prems(1) have "seen' = seen"
      by (auto simp: foldable_def split: option.splits)
    with Cons.prems(2) show ?thesis by simp
  qed
qed

lemma visit_blocked:
  assumes "y \<in> set xs" "session y = None"
  shows "visit session xs sz seen \<noteq> Inr (Completed, sz', seen')"
proof
  assume "visit session xs sz seen = Inr (Completed, sz', seen')"
  then have "list_all (foldable session) xs"
    by (rule visit_Completed_foldable)
  with assms(1) have "foldable session y"
    by (simp add: list_all_iff)
  with assms(2) show False
    by (simp add: foldable_def)
qed

lemma blocked_loop_body:
  assumes row: "session y = None"
    and blk: "blocked p y (subgraph # subgraphs)"
    and step: "loop_body session subgraph subgraphs = Inr (session', subgraphs')"
  shows "session' y = None \<and> session' p = session p \<and> blocked p y subgraphs'"
proof -
  from blk have rest: "blocked p y subgraphs"
    by (simp add: blocked_def)
  from loop_body_cases [OF step] consider
      (same) "session' = session" "subgraphs' = subgraphs"
    | (scheduled) sz seen where
        "visit session (to_visit subgraph) (entity_subgraph_size subgraph)
           (subgraphs_seen subgraph) = Inr (Scheduled, sz, seen)"
        "session' = session"
        "subgraphs' = subgraphs @ [subgraph\<lparr>subgraphs_seen := seen,
                 to_visit := filter (\<lambda>d. d \<notin> seen) (to_visit subgraph),
                 entity_subgraph_size := sz\<rparr>]"
    | (completed) sz seen entry where
        "visit session (to_visit subgraph) (entity_subgraph_size subgraph)
           (subgraphs_seen subgraph) = Inr (Completed, sz, seen)"
        "session (subgraph_name subgraph) = Some entry"
        "session' = session(subgraph_name subgraph \<mapsto> entry\<lparr>subgraph_size := Some sz\<rparr>)"
        "subgraphs' = subgraphs"
    by blast
  then show ?thesis
  proof cases
    case same
    then show ?thesis using row rest by simp
  next
    case scheduled
    have "y \<in> set (filter (\<lambda>d. d \<notin> seen) (to_visit subgraph)) \<and> y \<notin> seen"
      if "subgraph_name subgraph = p"
    proof -
      from blk that have y: "y \<in> set (to_visit subgraph)" "y \<notin> subgraphs_seen subgraph"
        by (simp_all add: blocked_def)
      from visit_seen_rows [OF scheduled(1) y(2) row] have "y \<notin> seen" .
      with y(1) show ?thesis by simp
    qed
    then show ?thesis
      using scheduled row rest by (auto simp: blocked_def)
  next
    case completed
    have ne: "subgraph_name subgraph \<noteq> p"
    proof
      assume "subgraph_name subgraph = p"
      with blk have "y \<in> set (to_visit subgraph)"
        by (simp add: blocked_def)
      from visit_blocked [of y "to_visit subgraph" session, OF this row] completed(1) show False
        by blast
    qed
    have "subgraph_name subgraph \<noteq> y"
      using completed(2) row by auto
    then show ?thesis
      using completed ne row rest by simp
  qed
qed

lemma blocked_iterate:
  assumes "session y = None" "blocked p y subgraphs"
    and "iterate n (session, subgraphs) = Inr (session', subgraphs')"
  shows "session' y = None \<and> session' p = session p \<and> blocked p y subgraphs'"
  using assms
proof (induction n arbitrary: session subgraphs)
  case 0
  then show ?case by simp
next
  case (Suc n)
  show ?case
  proof (cases subgraphs)
    case Nil
    with Suc.prems show ?thesis by simp
  next
    case (Cons subgraph rest)
    with Suc.prems(3) obtain session1 subgraphs1 where
      step: "loop_body session subgraph rest = Inr (session1, subgraphs1)"
      and more: "iterate n (session1, subgraphs1) = Inr (session', subgraphs')"
      by (auto split: sum.splits)
    from blocked_loop_body [OF Suc.prems(1) Suc.prems(2) [unfolded Cons] step]
    have s1: "session1 y = None" "session1 p = session p" "blocked p y subgraphs1"
      by simp_all
    from Suc.IH [OF s1(1) s1(3) more] s1(2) show ?thesis
      by simp
  qed
qed

lemma blocked_seed:
  assumes "y \<in> set (get_depends_on_package_names graph p)" "session y = None"
  shows "fst (seed graph session) y = None \<and> fst (seed graph session) p = session p
       \<and> blocked p y (snd (seed graph session))"
proof -
  have ne: "get_depends_on_package_names graph p \<noteq> []"
    using assms(1) by auto
  have "fst (seed graph session) y = None"
    using assms(2) by (simp add: fst_seed)
  moreover have "fst (seed graph session) p = session p"
    using ne by (cases "session p") (simp_all add: fst_seed seeded_row_def)
  moreover have "blocked p y (snd (seed graph session))"
    using assms(1)
    by (auto simp: blocked_def snd_seed entities_def new_entity_def Let_def split: if_splits)
  ultimately show ?thesis by simp
qed

lemma unwritten_row:
  assumes "y \<in> set (get_depends_on_package_names graph p)" "session0 y = None"
    and "iterate n (seed graph session0) = Inr (session, subgraphs)"
  shows "session p = session0 p \<and> session y = None"
proof -
  note s = blocked_seed [of y graph p session0, OF assms(1,2)]
  have "iterate n (fst (seed graph session0), snd (seed graph session0)) = Inr (session, subgraphs)"
    using assms(3) by simp
  from blocked_iterate [OF _ _ this, of y p] s show ?thesis
    by simp
qed

subsection \<open>Two runs side by side\<close>

lemma ready_mono: "ready D q \<Longrightarrow> D \<subseteq> D' \<Longrightarrow> ready D' q"
proof (induction q arbitrary: D D')
  case Nil
  then show ?case by simp
next
  case (Cons e q)
  from Cons.prems have "ready (insert (subgraph_name e) D) q"
    and "insert (subgraph_name e) D \<subseteq> insert (subgraph_name e) D'"
    by auto
  then have "ready (insert (subgraph_name e) D') q"
    by (rule Cons.IH)
  with Cons.prems show ?case by auto
qed














subsection \<open>A pass over doubles that ends with a finite accumulator\<close>




section \<open>The claims\<close>

text \<open>
  C1. The claim: a package with no dependencies, a row and a known \<^verbatim>\<open>version_count\<close>
  ends a full run with \<^verbatim>\<open>subgraph_size\<close> equal to its \<^verbatim>\<open>version_count\<close>. The code
  at the single package \<open>A\<close> with three versions: the run ends after one iteration and the
  size of \<open>A\<close> is 1, not 3. Line 127 appends an entity for \<open>A\<close> although it has no
  dependencies; its pass over the empty \<^verbatim>\<open>to_visit\<close> runs the \<^verbatim>\<open>else\<close> clause of the
  \<^verbatim>\<open>for\<close> loop, which stores the accumulator 1.0 over the value of line 134
  (\<open>leaf_size_after_run\<close> is the general fact).
\<close>

theorem C1_leaf_ends_with_one:
  "get_depends_on_package_names leaf_graph ''A'' = []
   \<and> leaf_session ''A'' = Some \<lparr>version_count = Some 3, subgraph_size = None\<rparr>
   \<and> (\<exists>session. fill_graph_score 1 leaf_graph leaf_session = Some (Inr session)
        \<and> size_of session ''A'' = Some 1)"
  by (simp add: run_simps leaf_graph_def leaf_session_def)




text \<open>
  C3. The claim: with \<open>A\<close> (no dependencies, three versions) and \<open>B\<close> (depends on \<open>A\<close>,
  two versions) a full run ends with the sizes 3 for \<open>A\<close> and 9 for \<open>B\<close>. The code: when
  the names are listed \<open>A\<close>, \<open>B\<close> the run ends with 1 for \<open>A\<close> and 3 for \<open>B\<close>; when they
  are listed \<open>B\<close>, \<open>A\<close> it ends with 1 for \<open>A\<close> and 9 for \<open>B\<close>.
\<close>

theorem C3_two_packages:
  "(\<exists>session. fill_graph_score 3 two_graph two_session = Some (Inr session)
      \<and> size_of session ''A'' = Some 1 \<and> size_of session ''B'' = Some 3)
   \<and> (\<exists>session. fill_graph_score 3 two_graph_rev two_session = Some (Inr session)
      \<and> size_of session ''A'' = Some 1 \<and> size_of session ''B'' = Some 9)"
  by (simp add: run_simps two_graph_def two_graph_rev_def two_session_def eval_nat_numeral)

text \<open>
  C4. The claim: once a \<^verbatim>\<open>subgraph_size\<close> is set, every later write of the run writes
  the same value. The code at the single package \<open>A\<close> with three versions: the first walk
  sets the size to 3 and the first iteration of the \<^verbatim>\<open>while\<close> loop then writes 1.
\<close>

theorem C4_size_written_twice:
  "size_of (fst (seed leaf_graph leaf_session)) ''A'' = Some 3
   \<and> (\<exists>session subgraphs. iterate 1 (seed leaf_graph leaf_session) = Inr (session, subgraphs)
        \<and> size_of session ''A'' = Some 1)"
  by (simp add: run_simps leaf_graph_def leaf_session_def)

text \<open>
  C5. The claim: the first walk enqueues one entity for a package with dependencies and
  none for a package without. The code for \<open>A\<close> (no dependencies) and \<open>B\<close> (depends on
  \<open>A\<close>): the deque after the first walk holds one entity for \<open>A\<close>, with nothing to visit,
  and two for \<open>B\<close> (\<open>seed_entity_count\<close> is the general count).
\<close>

theorem C5_entities_appended:
  "map subgraph_name (snd (seed two_graph two_session)) = [''A'', ''B'', ''B'']
   \<and> map to_visit (snd (seed two_graph two_session)) = [[], [''A''], [''A'']]"
  by (simp add: run_simps two_graph_def two_session_def)

text \<open>
  C6. The claim: the entity of a package one of whose direct dependencies has no row is
  dropped without being appended again, the size of the package stays unset, no other
  entity is affected and no exception leaves the loop.

  It fails where the iteration meets, before the dependency with no row, a dependency
  whose row has no size yet: the entity is appended again (line 150). Here \<open>P\<close> depends
  on \<open>X\<close> and \<open>Y\<close> (its set iterates \<open>X\<close> before \<open>Y\<close>), \<open>X\<close> depends on \<open>Y\<close>, and \<open>Y\<close> has
  no row. The first iteration appends the entity of \<open>P\<close> again; the entities of \<open>X\<close> are
  dropped, so \<open>X\<close> never gets a size; from the fourth iteration on the deque holds the two
  entities of \<open>P\<close>, which are appended again for ever, and the run does not end with any
  fuel.
\<close>

theorem C6_counterexample:
  "''Y'' \<in> set (get_depends_on_package_names unresolved_graph ''P'')
   \<and> unresolved_session ''Y'' = None
   \<and> iterate 1 (seed unresolved_graph unresolved_session) =
       Inr (unresolved_session,
            [new_entity ''P'' [''X'', ''Y''], new_entity ''X'' [''Y''], new_entity ''X'' [''Y''],
             new_entity ''P'' [''X'', ''Y'']])
   \<and> (\<forall>n. iterate (4 + n) (seed unresolved_graph unresolved_session) =
         Inr (unresolved_session,
              rotate n [new_entity ''P'' [''X'', ''Y''], new_entity ''P'' [''X'', ''Y'']]))
   \<and> (\<forall>n. fill_graph_score n unresolved_graph unresolved_session = None)"
proof -
  let ?P = "new_entity ''P'' [''X'', ''Y'']"
  let ?X = "new_entity ''X'' [''Y'']"
  let ?st = "seed unresolved_graph unresolved_session"
  have dep: "''Y'' \<in> set (get_depends_on_package_names unresolved_graph ''P'')"
    by (simp add: unresolved_graph_def)
  have row: "unresolved_session ''Y'' = None"
    by (simp add: unresolved_session_def)
  have seeded: "?st = (unresolved_session, [?P, ?P, ?X, ?X])"
    by (simp add: seed_def seed_package_def Let_def unresolved_graph_def)
  have p: "loop_body unresolved_session ?P q = Inr (unresolved_session, q @ [?P])" for q
    by (rule loop_body_stuck) (simp add: stuck_def new_entity_def unresolved_session_def)
  have x: "loop_body unresolved_session ?X q = Inr (unresolved_session, q)" for q
    by (simp add: loop_body_def new_entity_def unresolved_session_def)
  have i1: "iterate 1 ?st = Inr (unresolved_session, [?P, ?X, ?X, ?P])"
    by (simp add: seeded p)
  have i4: "iterate 4 ?st = Inr (unresolved_session, [?P, ?P])"
    by (simp add: seeded p x eval_nat_numeral)
  have "list_all (stuck unresolved_session) [?P, ?P]"
    by (simp add: stuck_def new_entity_def unresolved_session_def)
  then have rot: "iterate n (unresolved_session, [?P, ?P]) =
      Inr (unresolved_session, rotate n [?P, ?P])" for n
    by (rule iterate_stuck)
  have later: "iterate (4 + n) ?st = Inr (unresolved_session, rotate n [?P, ?P])" for n
    by (simp add: iterate_add i4 rot)
  have never: "fill_graph_score n unresolved_graph unresolved_session = None" for n
  proof (cases "fill_graph_score n unresolved_graph unresolved_session")
    case None
    then show ?thesis .
  next
    case (Some r)
    then have "drain (n + 4) ?st = Some r"
      unfolding fill_graph_score_def by (rule drain_more_fuel)
    moreover have "drain (4 + n) ?st = None"
      using later [of n] by (simp add: drain_iterate_None)
    ultimately show ?thesis
      by (simp add: add.commute)
  qed
  show ?thesis
    using dep row i1 later never by simp
qed

text \<open>
  C6, amended. Let \<open>y\<close> be a direct dependency of \<open>p\<close> with no row when the run starts.
  First part: in every state the run reaches, the row of \<open>p\<close> is the row it started with
  (its size stays unset if it was unset) and \<open>y\<close> still has no row. Second part: the same
  at the end of a run that ends. Third part: in the pass that reaches a dependency with no
  row (everything iterated before it was folded in), the entity is dropped: the table and
  the rest of the deque are left as they were. Fourth part: no iteration raises when every
  row has a version count.
\<close>

theorem C6_unresolved_dependency:
  "(y \<in> set (get_depends_on_package_names graph p) \<and> session0 y = None
      \<and> iterate n (seed graph session0) = Inr (session, subgraphs)
     \<longrightarrow> session p = session0 p \<and> session y = None)
   \<and> (y \<in> set (get_depends_on_package_names graph p) \<and> session0 y = None
      \<and> fill_graph_score n graph session0 = Some (Inr session')
     \<longrightarrow> session' p = session0 p)
   \<and> (to_visit subgraph = ds @ y # rest \<and> list_all (foldable session1) ds \<and> session1 y = None
     \<longrightarrow> loop_body session1 subgraph subgraphs1 = Inr (session1, subgraphs1))
   \<and> (counted session0 \<longrightarrow> (\<exists>st. iterate n (seed graph session0) = Inr st))"
proof -
  have a: "session p = session0 p \<and> session y = None"
    if "y \<in> set (get_depends_on_package_names graph p) \<and> session0 y = None
      \<and> iterate n (seed graph session0) = Inr (session, subgraphs)"
    using that unwritten_row by blast
  have b: "session' p = session0 p"
    if h: "y \<in> set (get_depends_on_package_names graph p) \<and> session0 y = None
      \<and> fill_graph_score n graph session0 = Some (Inr session')"
  proof -
    from h have "iterate n (seed graph session0) = Inr (session', [])"
      by (simp add: fill_graph_score_def drain_iterate_Inr)
    with h show ?thesis
      using unwritten_row by blast
  qed
  have c: "loop_body session1 subgraph subgraphs1 = Inr (session1, subgraphs1)"
    if h: "to_visit subgraph = ds @ y # rest \<and> list_all (foldable session1) ds \<and> session1 y = None"
  proof -
    from h have "visit session1 (to_visit subgraph) (entity_subgraph_size subgraph)
        (subgraphs_seen subgraph)
        = Inr (Unresolved, entity_subgraph_size subgraph * prod_list (map (factor session1) ds),
               subgraphs_seen subgraph \<union> set ds)"
      using visit_Unresolved [of session1 ds y rest] by simp
    then show ?thesis
      by (simp add: loop_body_def)
  qed
  have d: "\<exists>st. iterate n (seed graph session0) = Inr st" if c: "counted session0"
  proof -
    have "\<exists>st. iterate n (fst (seed graph session0), snd (seed graph session0)) = Inr st"
      using counted_seed [OF c] by (rule iterate_no_error)
    then show ?thesis
      by simp
  qed
  from a b c d show ?thesis
    by blast
qed

theorem C6_unresolved_dependency_witness:
  "''Y'' \<in> set (get_depends_on_package_names unresolved_graph ''P'')
   \<and> unresolved_session ''Y'' = None
   \<and> (\<exists>session subgraphs.
        iterate 1 (seed unresolved_graph unresolved_session) = Inr (session, subgraphs)
        \<and> session ''P'' = unresolved_session ''P'' \<and> session ''Y'' = None)
   \<and> ''Y'' \<in> set (get_depends_on_package_names absent_graph ''P'')
   \<and> (\<exists>session. fill_graph_score 2 absent_graph unresolved_session = Some (Inr session)
        \<and> session ''P'' = unresolved_session ''P'')
   \<and> loop_body unresolved_session (new_entity ''P'' [''Y'']) [] = Inr (unresolved_session, [])
   \<and> counted unresolved_session
   \<and> (\<exists>st. iterate 3 (seed unresolved_graph unresolved_session) = Inr st)"
proof -
  let ?P = "new_entity ''P'' [''X'', ''Y'']"
  let ?X = "new_entity ''X'' [''Y'']"
  have dep: "''Y'' \<in> set (get_depends_on_package_names unresolved_graph ''P'')"
    by (simp add: unresolved_graph_def)
  have dep2: "''Y'' \<in> set (get_depends_on_package_names absent_graph ''P'')"
    by (simp add: absent_graph_def)
  have row: "unresolved_session ''Y'' = None"
    by (simp add: unresolved_session_def)
  have i1: "iterate 1 (seed unresolved_graph unresolved_session) =
      Inr (unresolved_session, [?P, ?X, ?X, ?P])"
    by (simp add: run_simps unresolved_graph_def unresolved_session_def)
  have run: "fill_graph_score 2 absent_graph unresolved_session = Some (Inr unresolved_session)"
    by (simp add: run_simps absent_graph_def unresolved_session_def eval_nat_numeral)
  have tv: "to_visit (new_entity ''P'' [''Y'']) = [] @ ''Y'' # []"
    by (simp add: new_entity_def)
  have cnt: "counted unresolved_session"
    by (auto simp: counted_def unresolved_session_def split: if_splits)
  note t1 = C6_unresolved_dependency [where y = "''Y''" and graph = unresolved_graph
      and p = "''P''" and ?session0.0 = unresolved_session and n = 1
      and session = unresolved_session and subgraphs = "[?P, ?X, ?X, ?P]"]
  note t2 = C6_unresolved_dependency [where y = "''Y''" and graph = absent_graph
      and p = "''P''" and ?session0.0 = unresolved_session and n = 2
      and session' = unresolved_session and subgraph = "new_entity ''P'' [''Y'']"
      and ds = "[]" and rest = "[]" and ?session1.0 = unresolved_session and ?subgraphs1.0 = "[]"]
  note t3 = C6_unresolved_dependency [where graph = unresolved_graph
      and ?session0.0 = unresolved_session and n = 3]
  have c1: "unresolved_session ''P'' = unresolved_session ''P'' \<and> unresolved_session ''Y'' = None"
    using t1 dep row i1 by blast
  have c2: "unresolved_session ''P'' = unresolved_session ''P''"
    using t2 dep2 row run by blast
  have c3: "loop_body unresolved_session (new_entity ''P'' [''Y'']) [] = Inr (unresolved_session, [])"
    using t2 tv row by simp
  have c4: "\<exists>st. iterate 3 (seed unresolved_graph unresolved_session) = Inr st"
    using t3 cnt by blast
  show ?thesis
    using dep dep2 row i1 run c1 c3 c4 cnt by simp
qed




text \<open>
  C8. Cycle of two packages: \<open>c\<close> depends on \<open>d\<close> and \<open>d\<close> on \<open>c\<close>, both rows exist
  and neither has a \<^verbatim>\<open>subgraph_size\<close>. After any number \<open>n\<close> of iterations of the
  \<^verbatim>\<open>while\<close> loop no exception was raised, the table is the one the run started with
  (so neither size is set), the deque holds the four seeded entities rotated \<open>n\<close> times
  (so it is never empty), and the loop has not ended, whatever the fuel.
\<close>

theorem C8_cycle:
  assumes "get_python_package_version_names_all graph = [c, d]"
    and "get_depends_on_package_names graph c = [d]"
    and "get_depends_on_package_names graph d = [c]"
    and "session c = Some entry_c" "subgraph_size entry_c = None"
    and "session d = Some entry_d" "subgraph_size entry_d = None"
  shows "iterate n (seed graph session) =
           Inr (session, rotate n [new_entity c [d], new_entity c [d],
                                   new_entity d [c], new_entity d [c]])
       \<and> size_of session c = None \<and> size_of session d = None
       \<and> fill_graph_score n graph session = None"
proof -
  let ?q = "[new_entity c [d], new_entity c [d], new_entity d [c], new_entity d [c]]"
  have q: "snd (seed graph session) = ?q"
    using assms(1-3) by (simp add: snd_seed entities_def Let_def)
  have "fst (seed graph session) x = session x" for x
    using assms(1-3) by (cases "session x") (auto simp: fst_seed seeded_row_def)
  then have s: "fst (seed graph session) = session"
    by (rule ext)
  have seeded: "seed graph session = (session, ?q)"
    using q s by (metis prod.collapse)
  have "list_all (stuck session) ?q"
    using assms(4-7) by (simp add: stuck_def new_entity_def)
  then have it: "iterate n (session, ?q) = Inr (session, rotate n ?q)"
    by (rule iterate_stuck)
  have "rotate n ?q \<noteq> []"
    by simp
  with it have "drain n (session, ?q) = None"
    by (simp add: drain_iterate_None)
  then show ?thesis
    using it seeded assms(4-7) by (simp add: fill_graph_score_def size_of_def)
qed

theorem C8_cycle_witness:
  "iterate 5 (seed cycle_graph cycle_session) =
     Inr (cycle_session, [new_entity ''C'' [''D''], new_entity ''D'' [''C''],
                          new_entity ''D'' [''C''], new_entity ''C'' [''D'']])
   \<and> size_of cycle_session ''C'' = None \<and> size_of cycle_session ''D'' = None
   \<and> fill_graph_score 5 cycle_graph cycle_session = None"
proof -
  have n: "get_python_package_version_names_all cycle_graph = [''C'', ''D'']"
    by (simp add: cycle_graph_def)
  have c: "get_depends_on_package_names cycle_graph ''C'' = [''D'']"
    by (simp add: cycle_graph_def)
  have d: "get_depends_on_package_names cycle_graph ''D'' = [''C'']"
    by (simp add: cycle_graph_def)
  have rc: "cycle_session ''C'' = Some \<lparr>version_count = Some 1, subgraph_size = None\<rparr>"
    by (simp add: cycle_session_def)
  have rd: "cycle_session ''D'' = Some \<lparr>version_count = Some 1, subgraph_size = None\<rparr>"
    by (simp add: cycle_session_def)
  have r: "rotate 5 [a, a, b, b] = [a, b, b, a]" for a b :: SubGraphEntity
    by (simp add: eval_nat_numeral)
  show ?thesis
    using C8_cycle [OF n c d rc _ rd, of 5] r by simp
qed




text \<open>
  C10. The fold of line 153 raises exactly where a row has \<^verbatim>\<open>subgraph_size\<close> set and
  \<^verbatim>\<open>version_count\<close> unset. First part: when the pass reaches such a dependency \<open>d\<close>
  (everything before it in the iteration order was folded in), the loop body raises
  \<^verbatim>\<open>TypeError\<close> and the exception leaves the \<^verbatim>\<open>while\<close> loop. Second part: when
  every pending dependency whose row has a size also has a version count, the loop body
  raises nothing. Third part: when every row of the table has a version count, no iteration
  of a whole run raises.
\<close>

theorem C10_fold_TypeError:
  "(to_visit subgraph = ds @ d # rest \<and> list_all (foldable session) ds \<and> session d = Some entry
      \<and> subgraph_size entry = Some s \<and> version_count entry = None
     \<longrightarrow> loop_body session subgraph subgraphs = Inl TypeError
       \<and> drain (Suc n) (session, subgraph # subgraphs) = Some (Inl TypeError))
   \<and> ((\<forall>d\<in>set (to_visit subgraph). \<forall>entry. session d = Some entry \<longrightarrow>
          subgraph_size entry \<noteq> None \<longrightarrow> version_count entry \<noteq> None)
     \<longrightarrow> (\<exists>st. loop_body session subgraph subgraphs = Inr st))
   \<and> (counted session0
     \<longrightarrow> (\<exists>st. iterate n (seed graph session0) = Inr st)
       \<and> fill_graph_score n graph session0 \<noteq> Some (Inl TypeError))"
proof (intro conjI impI)
  assume h: "to_visit subgraph = ds @ d # rest \<and> list_all (foldable session) ds
      \<and> session d = Some entry \<and> subgraph_size entry = Some s \<and> version_count entry = None"
  then have "visit session (to_visit subgraph) (entity_subgraph_size subgraph)
      (subgraphs_seen subgraph) = Inl TypeError"
    using visit_TypeError [of session ds d entry s rest] by simp
  then show lb: "loop_body session subgraph subgraphs = Inl TypeError"
    by (simp add: loop_body_def)
  then show "drain (Suc n) (session, subgraph # subgraphs) = Some (Inl TypeError)"
    by simp
next
  assume "\<forall>d\<in>set (to_visit subgraph). \<forall>entry. session d = Some entry \<longrightarrow>
          subgraph_size entry \<noteq> None \<longrightarrow> version_count entry \<noteq> None"
  then show "\<exists>st. loop_body session subgraph subgraphs = Inr st"
    by (rule loop_body_no_error)
next
  assume c: "counted session0"
  have "\<exists>st. iterate n (fst (seed graph session0), snd (seed graph session0)) = Inr st"
    using counted_seed [OF c] by (rule iterate_no_error)
  then show it: "\<exists>st. iterate n (seed graph session0) = Inr st"
    by simp
  then show "fill_graph_score n graph session0 \<noteq> Some (Inl TypeError)"
    by (auto simp: fill_graph_score_def drain_iterate_Inl)
qed

theorem C10_fold_TypeError_witness:
  "typeerror_session ''X'' = Some \<lparr>version_count = None, subgraph_size = Some 2\<rparr>
   \<and> loop_body typeerror_session (new_entity ''P'' [''X'']) [] = Inl TypeError
   \<and> drain 1 (typeerror_session, [new_entity ''P'' [''X'']]) = Some (Inl TypeError)
   \<and> (\<exists>st. loop_body order_session (new_entity ''P'' [''A'', ''B'']) [] = Inr st)
   \<and> counted order_session
   \<and> (\<exists>st. iterate 1 (seed leaf_graph order_session) = Inr st)
   \<and> fill_graph_score 1 leaf_graph order_session \<noteq> Some (Inl TypeError)"
proof -
  have x: "typeerror_session ''X'' = Some \<lparr>version_count = None, subgraph_size = Some 2\<rparr>"
    by (simp add: typeerror_session_def)
  have a: "to_visit (new_entity ''P'' [''X'']) = [] @ ''X'' # [] \<and> list_all (foldable typeerror_session) []
      \<and> typeerror_session ''X'' = Some \<lparr>version_count = None, subgraph_size = Some 2\<rparr>
      \<and> subgraph_size \<lparr>version_count = None, subgraph_size = Some 2\<rparr> = Some 2
      \<and> version_count \<lparr>version_count = None, subgraph_size = Some (2::real)\<rparr> = None"
    using x by (simp add: new_entity_def)
  have b: "\<forall>d\<in>set (to_visit (new_entity ''P'' [''A'', ''B''])). \<forall>entry. order_session d = Some entry \<longrightarrow>
          subgraph_size entry \<noteq> None \<longrightarrow> version_count entry \<noteq> None"
    by (auto simp: new_entity_def order_session_def)
  note c = counted_order_session
  note t1 = C10_fold_TypeError [where subgraph = "new_entity ''P'' [''X'']" and ds = "[]"
      and d = "''X''" and rest = "[]" and session = typeerror_session
      and entry = "\<lparr>version_count = None, subgraph_size = Some 2\<rparr>" and s = 2
      and subgraphs = "[]" and n = 0 and ?session0.0 = order_session and graph = leaf_graph]
  note t3 = C10_fold_TypeError [where subgraph = "new_entity ''P'' [''A'', ''B'']"
      and session = order_session and subgraphs = "[]" and n = 1
      and ?session0.0 = order_session and graph = leaf_graph]
  have t2: "loop_body typeerror_session (new_entity ''P'' [''X'']) [] = Inl TypeError
       \<and> drain (Suc 0) (typeerror_session, [new_entity ''P'' [''X'']]) = Some (Inl TypeError)"
    using t1 a by blast
  have t4: "\<exists>st. loop_body order_session (new_entity ''P'' [''A'', ''B'']) [] = Inr st"
    using t3 b by blast
  have t5: "(\<exists>st. iterate 1 (seed leaf_graph order_session) = Inr st)
       \<and> fill_graph_score 1 leaf_graph order_session \<noteq> Some (Inl TypeError)"
    using t3 c by blast
  show ?thesis
    using t2 t4 t5 x c by simp
qed

end
